theory Spec2Isabelle
  imports Main "HOL-Library.Signed_Division"
begin

section \<open>Values and arrays of the game\<close>

text \<open>
  The values a slot of a \<open>squares\<close> array can hold: \<open>null\<close> (from
  \<open>Array(9).fill(null)\<close>), \<open>undefined\<close> (what a read outside the array or of a hole
  gives) and a string (\<open>'X'\<close> or \<open>'O'\<close>).
\<close>

datatype jsval = Null | Undefined | Str string

text \<open>Truthiness, as \<open>if (v)\<close> and \<open>v || w\<close> test it: the empty string is falsy.\<close>

fun truthy :: "jsval \<Rightarrow> bool" where
  "truthy Null = False"
| "truthy Undefined = False"
| "truthy (Str s) = (s \<noteq> [])"

text \<open>String conversion, as \<open>v + ' wins!!!'\<close> applies it.\<close>

fun to_string :: "jsval \<Rightarrow> string" where
  "to_string Null = ''null''"
| "to_string Undefined = ''undefined''"
| "to_string (Str s) = s"

text \<open>
  An array object: its indexed elements (a hole is kept as \<open>Undefined\<close>, which is what
  reading it gives) and the properties stored under integer keys that are not array
  indices (negative keys, or keys from \<open>2^32 - 1\<close> on).
\<close>

record js_array =
  elems :: "jsval list"
  props :: "int \<rightharpoonup> jsval"

definition is_index :: "int \<Rightarrow> bool" where
  "is_index i = (0 \<le> i \<and> i < 4294967295)"

text \<open>\<open>a[i]\<close>: a read outside the elements and of an absent property is \<open>undefined\<close>.\<close>

definition get :: "js_array \<Rightarrow> int \<Rightarrow> jsval" where
  "get a i =
     (if is_index i then (if nat i < length (elems a) then elems a ! nat i else Undefined)
      else (case props a i of None \<Rightarrow> Undefined | Some v \<Rightarrow> v))"

text \<open>
  \<open>a[i] = v\<close>: inside the array the element is replaced; an array index past the end
  extends the array, leaving holes; any other key becomes a property.
\<close>

definition set_at :: "js_array \<Rightarrow> int \<Rightarrow> jsval \<Rightarrow> js_array" where
  "set_at a i v =
     (if is_index i then
        (if nat i < length (elems a) then a\<lparr>elems := (elems a)[nat i := v]\<rparr>
         else a\<lparr>elems := elems a @ replicate (nat i - length (elems a)) Undefined @ [v]\<rparr>)
      else a\<lparr>props := (props a)(i \<mapsto> v)\<rparr>)"

text \<open>\<open>a.slice()\<close>: a new array with the indexed elements only.\<close>

definition slice_copy :: "js_array \<Rightarrow> js_array" where
  "slice_copy a = \<lparr>elems = elems a, props = Map.empty\<rparr>"

text \<open>
  \<open>xs.slice(0, e)\<close>: a negative end counts from the end of the array, and the end is
  clamped to the length.
\<close>

definition slice_to :: "'a list \<Rightarrow> int \<Rightarrow> 'a list" where
  "slice_to xs e =
     (let len = int (length xs);
          final = (if e < 0 then max (len + e) 0 else min e len)
      in take (nat final) xs)"

text \<open>\<open>Array(9).fill(null)\<close>\<close>

definition empty_squares :: js_array where
  "empty_squares = \<lparr>elems = replicate 9 Null, props = Map.empty\<rparr>"

section \<open>calculateWinner\<close>

definition lines :: "(int \<times> int \<times> int) list" where
  "lines =
     [(0, 1, 2),
      (3, 4, 5),
      (6, 7, 8),
      (0, 3, 6),
      (1, 4, 7),
      (2, 5, 8),
      (0, 4, 8),
      (2, 4, 6)]"

text \<open>The body of the \<open>for\<close> loop over \<open>lines\<close>, from the line at hand on.\<close>

fun winner_from :: "(int \<times> int \<times> int) list \<Rightarrow> js_array \<Rightarrow> jsval" where
  "winner_from [] sq = Null"
| "winner_from ((a, b, c) # ls) sq =
     (if truthy (get sq a) \<and> get sq a = get sq b \<and> get sq a = get sq c
      then get sq a
      else winner_from ls sq)"

definition calculateWinner :: "js_array \<Rightarrow> jsval" where
  "calculateWinner sq = winner_from lines sq"

section \<open>The Game component\<close>

record entry =
  squares :: js_array

record game_state =
  history :: "entry list"
  stepNumber :: int
  xIsNext :: bool

text \<open>The state the constructor sets up.\<close>

definition initial_state :: game_state where
  "initial_state =
     \<lparr>history = [\<lparr>squares = empty_squares\<rparr>],
      stepNumber = 0,
      xIsNext = True\<rparr>"

text \<open>
  Reading \<open>.squares\<close> of \<open>undefined\<close> throws a \<open>TypeError\<close>; nothing else in the
  component can throw.
\<close>

datatype error = TypeError

text \<open>
  \<open>handleClick(i)\<close>. The early \<open>return\<close> leaves the state as it is; otherwise the
  state is replaced by what \<open>setState\<close> is given.
\<close>

definition handleClick :: "int \<Rightarrow> game_state \<Rightarrow> error + game_state" where
  "handleClick i s =
     (let hist = slice_to (history s) (stepNumber s + 1) in
      if hist = [] then Inl TypeError
      else
        let current = last hist;
            sq = slice_copy (squares current)
        in if truthy (calculateWinner sq) \<or> truthy (get sq i) then Inr s
           else
             let sq' = set_at sq i (Str (if xIsNext s then ''X'' else ''O''))
             in Inr (s\<lparr>history := hist @ [\<lparr>squares = sq'\<rparr>],
                       stepNumber := int (length hist),
                       xIsNext := \<not> xIsNext s\<rparr>))"

text \<open>\<open>jumpTo(step)\<close>; \<open>%\<close> is the remainder that takes the sign of the dividend.\<close>

definition jumpTo :: "int \<Rightarrow> game_state \<Rightarrow> game_state" where
  "jumpTo step s = s\<lparr>stepNumber := step, xIsNext := (step smod 2 = 0)\<rparr>"

text \<open>The string \<^verbatim>\<open>'s turn!\<close>, which starts with an apostrophe.\<close>

definition turn_suffix :: string where
  "turn_suffix = CHR 0x27 # ''s turn!''"

text \<open>
  What \<open>render\<close> computes from the state: the squares handed to the board and the
  status line. Reading \<open>history[stepNumber]\<close> outside the history gives
  \<open>undefined\<close>, and \<open>current.squares\<close> then throws. (The list of jump buttons,
  one button per entry of the history, is left out.)
\<close>

record view =
  board :: js_array
  status :: string

definition render :: "game_state \<Rightarrow> error + view" where
  "render s =
     (if 0 \<le> stepNumber s \<and> nat (stepNumber s) < length (history s) then
        let current = history s ! nat (stepNumber s);
            winner = calculateWinner (squares current)
        in Inr \<lparr>board = squares current,
                status = (if truthy winner then to_string winner @ '' wins!!!''
                          else (if xIsNext s then ''X'' else ''O'') @ turn_suffix)\<rparr>
      else Inl TypeError)"

text \<open>
  The states the page can be in: the constructor's state, and what clicks on the nine
  squares and on the jump buttons (one per entry of the history) lead to.
\<close>

inductive reachable :: "game_state \<Rightarrow> bool" where
  start: "reachable initial_state"
| click: "reachable s \<Longrightarrow> 0 \<le> i \<Longrightarrow> i \<le> 8 \<Longrightarrow> handleClick i s = Inr s' \<Longrightarrow> reachable s'"
| jump: "reachable s \<Longrightarrow> 0 \<le> step \<Longrightarrow> step < int (length (history s)) \<Longrightarrow>
         reachable (jumpTo step s)"

section \<open>Vocabulary of the specification\<close>

text \<open>
  A board of the specification: nine cells, each empty (\<open>null\<close>) or one of the two
  marks, and nothing stored beside the cells.
\<close>

definition is_board :: "js_array \<Rightarrow> bool" where
  "is_board a =
     (length (elems a) = 9 \<and> props a = Map.empty \<and>
      (\<forall>v \<in> set (elems a). v = Null \<or> v = Str ''X'' \<or> v = Str ''O''))"

text \<open>An entry of the history with the given cells.\<close>

definition cells :: "jsval list \<Rightarrow> entry" where
  "cells vs = \<lparr>squares = \<lparr>elems = vs, props = Map.empty\<rparr>\<rparr>"

text \<open>
  The detector as the specification words it: the eight lines in its order, a line
  matching when its first cell is not empty and equals the other two, and the result
  the first cell of the first matching line, or empty.
\<close>

definition spec_lines :: "(int \<times> int \<times> int) list" where
  "spec_lines =
     [(0, 1, 2), (3, 4, 5), (6, 7, 8), (0, 3, 6), (1, 4, 7), (2, 5, 8), (0, 4, 8), (2, 4, 6)]"

definition spec_line_matches :: "js_array \<Rightarrow> int \<times> int \<times> int \<Rightarrow> bool" where
  "spec_line_matches sq l =
     (case l of (a, b, c) \<Rightarrow> get sq a \<noteq> Null \<and> get sq a = get sq b \<and> get sq a = get sq c)"

definition spec_detect :: "js_array \<Rightarrow> jsval" where
  "spec_detect sq =
     (case find (spec_line_matches sq) spec_lines of
        None \<Rightarrow> Null
      | Some (a, b, c) \<Rightarrow> get sq a)"

definition on_board :: "int \<times> int \<times> int \<Rightarrow> bool" where
  "on_board l =
     (case l of (a, b, c) \<Rightarrow> 0 \<le> a \<and> a \<le> 8 \<and> 0 \<le> b \<and> b \<le> 8 \<and> 0 \<le> c \<and> c \<le> 8)"

text \<open>
  The board at the active step, \<open>history[stepNumber].squares\<close>, for a state whose
  step indexes the history.
\<close>

definition currentBoard :: "game_state \<Rightarrow> js_array" where
  "currentBoard s = squares (history s ! nat (stepNumber s))"

text \<open>A truthy cell of an entry keeps its value in every later entry.\<close>

definition monotone_history :: "entry list \<Rightarrow> bool" where
  "monotone_history h =
     (\<forall>n m p. n \<le> m \<and> m < length h \<and> truthy (get (squares (h ! n)) p) \<longrightarrow>
        get (squares (h ! m)) p = get (squares (h ! n)) p)"

text \<open>The invariant of the reachable states.\<close>

definition game_inv :: "game_state \<Rightarrow> bool" where
  "game_inv s =
     (0 \<le> stepNumber s \<and> stepNumber s < int (length (history s)) \<and>
      xIsNext s = even (stepNumber s) \<and>
      (\<forall>e \<in> set (history s). is_board (squares e)) \<and>
      squares (history s ! 0) = empty_squares \<and>
      monotone_history (history s))"

section \<open>Sequences of events\<close>

text \<open>
  A click on square \<open>i\<close> calls \<open>handleClick(i)\<close>, a click on a jump button calls
  \<open>jumpTo\<close>; \<open>run\<close> handles a sequence of events in order, and stops at an error.
\<close>

datatype event = Click int | Jump int

fun run :: "event list \<Rightarrow> game_state \<Rightarrow> error + game_state" where
  "run [] s = Inr s"
| "run (Click i # es) s = (case handleClick i s of Inl e \<Rightarrow> Inl e | Inr s' \<Rightarrow> run es s')"
| "run (Jump k # es) s = run es (jumpTo k s)"

text \<open>
  The sequences the page can produce: the board has the squares 0 to 8, and the list
  of jump buttons has one button for each entry of the history.
\<close>

fun from_page :: "event list \<Rightarrow> game_state \<Rightarrow> bool" where
  "from_page [] s = True"
| "from_page (Click i # es) s =
     (0 \<le> i \<and> i \<le> 8 \<and>
      (case handleClick i s of Inl e \<Rightarrow> False | Inr s' \<Rightarrow> from_page es s'))"
| "from_page (Jump k # es) s =
     (0 \<le> k \<and> k < int (length (history s)) \<and> from_page es (jumpTo k s))"

text \<open>Some states of a game, used as examples below.\<close>

definition one_move :: game_state where
  "one_move =
     \<lparr>history =
        [cells [Null, Null, Null, Null, Null, Null, Null, Null, Null],
         cells [Null, Null, Null, Null, Str ''X'', Null, Null, Null, Null]],
      stepNumber = 1,
      xIsNext = False\<rparr>"

definition two_moves :: game_state where
  "two_moves =
     \<lparr>history =
        [cells [Null, Null, Null, Null, Null, Null, Null, Null, Null],
         cells [Str ''X'', Null, Null, Null, Null, Null, Null, Null, Null],
         cells [Str ''X'', Str ''O'', Null, Null, Null, Null, Null, Null, Null]],
      stepNumber = 2,
      xIsNext = True\<rparr>"

definition won_game :: game_state where
  "won_game =
     \<lparr>history =
        [cells [Null, Null, Null, Null, Null, Null, Null, Null, Null],
         cells [Str ''X'', Null, Null, Null, Null, Null, Null, Null, Null],
         cells [Str ''X'', Null, Null, Str ''O'', Null, Null, Null, Null, Null],
         cells [Str ''X'', Str ''X'', Null, Str ''O'', Null, Null, Null, Null, Null],
         cells [Str ''X'', Str ''X'', Null, Str ''O'', Str ''O'', Null, Null, Null, Null],
         cells [Str ''X'', Str ''X'', Str ''X'', Str ''O'', Str ''O'', Null, Null, Null, Null]],
      stepNumber = 5,
      xIsNext = False\<rparr>"

section \<open>Properties of the arrays and of the detector\<close>

lemma get_set_at_same: "get (set_at a i v) i = v"
  by (simp add: get_def set_at_def nth_append)

lemma get_set_at_other:
  assumes "k \<noteq> i"
  shows "get (set_at a i v) k = get a k"
proof (cases "is_index i")
  case False
  then show ?thesis using assms by (simp add: get_def set_at_def)
next
  case True
  then have i0: "0 \<le> i" by (simp add: is_index_def)
  show ?thesis
  proof (cases "is_index k")
    case False
    then show ?thesis using True by (simp add: get_def set_at_def)
  next
    case k: True
    then have "0 \<le> k" by (simp add: is_index_def)
    with i0 assms have ne: "nat k \<noteq> nat i" by simp
    show ?thesis
    proof (cases "nat i < length (elems a)")
      case True
      then show ?thesis using \<open>is_index i\<close> k ne by (simp add: get_def set_at_def)
    next
      case False
      then show ?thesis using \<open>is_index i\<close> k ne
        by (auto simp: get_def set_at_def nth_append nth_Cons')
    qed
  qed
qed

lemma slice_copy_id: "props a = Map.empty \<Longrightarrow> slice_copy a = a"
  by (simp add: slice_copy_def)

lemma get_slice_copy: "is_index k \<Longrightarrow> get (slice_copy a) k = get a k"
  by (simp add: get_def slice_copy_def)

lemma is_board_cell:
  assumes "is_board a" "0 \<le> k" "k \<le> 8"
  shows "get a k = Null \<or> get a k = Str ''X'' \<or> get a k = Str ''O''"
proof -
  have len: "nat k < length (elems a)" using assms by (simp add: is_board_def)
  then have "elems a ! nat k \<in> set (elems a)" by simp
  moreover have "get a k = elems a ! nat k"
    using len assms(2,3) by (simp add: get_def is_index_def)
  ultimately show ?thesis using assms(1) by (auto simp: is_board_def)
qed

lemma is_board_truthy:
  assumes "is_board a" "0 \<le> k" "k \<le> 8"
  shows "truthy (get a k) = (get a k \<noteq> Null)"
  using is_board_cell [OF assms] by auto

lemma is_board_outside:
  assumes "is_board a" "k < 0 \<or> 8 < k"
  shows "get a k = Undefined"
proof (cases "is_index k")
  case True
  have "length (elems a) = 9" using assms(1) by (simp add: is_board_def)
  moreover have "0 \<le> k" using True by (simp add: is_index_def)
  ultimately have "\<not> nat k < length (elems a)" using assms(2) by arith
  then show ?thesis using True by (simp add: get_def)
next
  case False
  have "props a k = None" using assms(1) by (simp add: is_board_def)
  then show ?thesis using False by (simp add: get_def)
qed

lemma winner_from_find:
  assumes "is_board sq" "\<forall>l \<in> set ls. on_board l"
  shows "winner_from ls sq =
           (case find (spec_line_matches sq) ls of None \<Rightarrow> Null | Some (a, b, c) \<Rightarrow> get sq a)"
  using assms(2)
proof (induction ls)
  case Nil
  show ?case by simp
next
  case (Cons l ls)
  obtain a b c where l: "l = (a, b, c)" by (cases l)
  have "0 \<le> a" "a \<le> 8" using Cons.prems l by (auto simp: on_board_def)
  then have "truthy (get sq a) = (get sq a \<noteq> Null)"
    using assms(1) by (simp add: is_board_truthy)
  then have m: "spec_line_matches sq (a, b, c) =
      (truthy (get sq a) \<and> get sq a = get sq b \<and> get sq a = get sq c)"
    by (simp add: spec_line_matches_def)
  have "winner_from ls sq =
      (case find (spec_line_matches sq) ls of None \<Rightarrow> Null | Some (a, b, c) \<Rightarrow> get sq a)"
    using Cons by simp
  then show ?case unfolding l using m by (cases "spec_line_matches sq (a, b, c)") auto
qed

lemma lines_on_board: "\<forall>l \<in> set lines. on_board l"
  by (simp add: lines_def on_board_def)

lemma lines_spec: "lines = spec_lines"
  by (simp add: lines_def spec_lines_def)

lemma slice_to_in_range:
  "0 \<le> k \<Longrightarrow> k < int (length xs) \<Longrightarrow> slice_to xs (k + 1) = take (Suc (nat k)) xs"
  by (simp add: slice_to_def Let_def min_def nat_add_distrib)

lemma last_take_Suc: "n < length xs \<Longrightarrow> last (take (Suc n) xs) = xs ! n"
  by (simp add: take_Suc_conv_app_nth)

lemma is_board_empty_squares: "is_board empty_squares"
  by (simp add: is_board_def empty_squares_def)

lemma is_board_set_at:
  assumes "is_board a" "0 \<le> i" "i \<le> 8" "m = ''X'' \<or> m = ''O''"
  shows "is_board (set_at a i (Str m))"
proof -
  have len: "length (elems a) = 9" and pr: "props a = Map.empty"
    and cells: "\<forall>v \<in> set (elems a). v = Null \<or> v = Str ''X'' \<or> v = Str ''O''"
    using assms(1) by (simp_all add: is_board_def)
  have idx: "is_index i" "nat i < length (elems a)"
    using assms(2,3) len by (simp_all add: is_index_def)
  then have eq: "set_at a i (Str m) = a\<lparr>elems := (elems a)[nat i := Str m]\<rparr>"
    by (simp add: set_at_def)
  have "set ((elems a)[nat i := Str m]) \<subseteq> insert (Str m) (set (elems a))"
    by (rule set_update_subset_insert)
  then have "\<forall>v \<in> set ((elems a)[nat i := Str m]). v = Null \<or> v = Str ''X'' \<or> v = Str ''O''"
    using cells assms(4) by blast
  then show ?thesis unfolding eq using len pr by (simp add: is_board_def)
qed

lemma current_in_history:
  assumes "game_inv s"
  shows "history s ! nat (stepNumber s) \<in> set (history s)"
proof -
  have "nat (stepNumber s) < length (history s)"
    using assms by (simp add: game_inv_def nat_less_iff)
  then show ?thesis by (rule nth_mem)
qed

lemma is_board_current: "game_inv s \<Longrightarrow> is_board (currentBoard s)"
  unfolding currentBoard_def using current_in_history by (auto simp: game_inv_def)

lemma handleClick_unfold:
  assumes "game_inv s"
  shows "handleClick i s =
     (if truthy (calculateWinner (currentBoard s)) \<or> truthy (get (currentBoard s) i) then Inr s
      else Inr (s\<lparr>history := take (Suc (nat (stepNumber s))) (history s) @
                     [\<lparr>squares = set_at (currentBoard s) i
                         (Str (if even (stepNumber s) then ''X'' else ''O''))\<rparr>],
                stepNumber := stepNumber s + 1,
                xIsNext := odd (stepNumber s)\<rparr>))"
proof -
  have r: "0 \<le> stepNumber s" "stepNumber s < int (length (history s))"
    and x: "xIsNext s = even (stepNumber s)"
    using assms by (simp_all add: game_inv_def)
  have sl: "slice_to (history s) (stepNumber s + 1) = take (Suc (nat (stepNumber s))) (history s)"
    using r by (rule slice_to_in_range)
  have n: "nat (stepNumber s) < length (history s)" using r by simp
  then have ne: "take (Suc (nat (stepNumber s))) (history s) \<noteq> []" by auto
  have la: "last (take (Suc (nat (stepNumber s))) (history s)) = history s ! nat (stepNumber s)"
    using n by (rule last_take_Suc)
  have ln: "int (length (take (Suc (nat (stepNumber s))) (history s))) = stepNumber s + 1"
    using n r by simp
  have "props (currentBoard s) = Map.empty"
    using is_board_current [OF assms] by (simp add: is_board_def)
  then have cp: "slice_copy (squares (history s ! nat (stepNumber s))) = currentBoard s"
    by (simp add: slice_copy_id currentBoard_def)
  show ?thesis
    unfolding handleClick_def sl Let_def la cp ln using ne x by simp
qed

lemma monotone_history_append:
  assumes mono: "monotone_history h" and k: "k < length h"
    and free: "\<not> truthy (get (squares (h ! k)) i)"
  shows "monotone_history (take (Suc k) h @ [\<lparr>squares = set_at (squares (h ! k)) i v\<rparr>])"
  unfolding monotone_history_def
proof (intro allI impI)
  fix n m p
  let ?new = "\<lparr>squares = set_at (squares (h ! k)) i v\<rparr>"
  let ?h = "take (Suc k) h @ [?new]"
  assume a: "n \<le> m \<and> m < length ?h \<and> truthy (get (squares (?h ! n)) p)"
  have len: "length (take (Suc k) h) = Suc k" using k by simp
  have old: "\<And>j. j \<le> k \<Longrightarrow> ?h ! j = h ! j"
    using len by (simp add: nth_append)
  have new: "?h ! Suc k = ?new"
    using len by (simp add: nth_append)
  from a have nm: "n \<le> m" and m: "m \<le> Suc k" and t: "truthy (get (squares (?h ! n)) p)"
    using len by simp_all
  show "get (squares (?h ! m)) p = get (squares (?h ! n)) p"
  proof (cases "m \<le> k")
    case True
    then have "n \<le> k" using nm by simp
    then have "truthy (get (squares (h ! n)) p)" using t old by simp
    then have "get (squares (h ! m)) p = get (squares (h ! n)) p"
      using mono nm True k unfolding monotone_history_def by (meson le_less_trans)
    then show ?thesis using old True \<open>n \<le> k\<close> by simp
  next
    case False
    then have mk: "m = Suc k" using m by simp
    show ?thesis
    proof (cases "n = Suc k")
      case True
      then show ?thesis using mk by simp
    next
      case False
      then have nk: "n \<le> k" using nm mk by simp
      then have tn: "truthy (get (squares (h ! n)) p)" using t old by simp
      then have eq: "get (squares (h ! k)) p = get (squares (h ! n)) p"
        using mono nk k unfolding monotone_history_def by blast
      then have "p \<noteq> i" using tn free by auto
      then have "get (squares ?new) p = get (squares (h ! k)) p"
        by (simp add: get_set_at_other)
      then show ?thesis using eq mk new old nk by simp
    qed
  qed
qed

lemma game_inv_initial: "game_inv initial_state"
  by (simp add: game_inv_def initial_state_def is_board_empty_squares monotone_history_def)

lemma smod_2_even: "((k::int) smod 2 = 0) = even k"
  by (auto simp: signed_modulo_int_def sgn_if elim: evenE oddE)

lemma game_inv_jumpTo:
  assumes "game_inv s" "0 \<le> step" "step < int (length (history s))"
  shows "game_inv (jumpTo step s)"
  using assms by (simp add: game_inv_def jumpTo_def smod_2_even)

lemma game_inv_handleClick:
  assumes inv: "game_inv s" and i: "0 \<le> i" "i \<le> 8" and h: "handleClick i s = Inr s'"
  shows "game_inv s'"
proof (cases "truthy (calculateWinner (currentBoard s)) \<or> truthy (get (currentBoard s) i)")
  case True
  then have "s' = s" using h handleClick_unfold [OF inv, of i] by simp
  then show ?thesis using inv by simp
next
  case False
  let ?k = "nat (stepNumber s)"
  let ?m = "if even (stepNumber s) then ''X'' else ''O''"
  let ?new = "\<lparr>squares = set_at (currentBoard s) i (Str ?m)\<rparr>"
  let ?h = "take (Suc ?k) (history s) @ [?new]"
  have s': "s' = s\<lparr>history := ?h, stepNumber := stepNumber s + 1, xIsNext := odd (stepNumber s)\<rparr>"
    using False h handleClick_unfold [OF inv, of i] by simp
  have r: "0 \<le> stepNumber s" and k: "?k < length (history s)"
    using inv by (simp_all add: game_inv_def nat_less_iff)
  have len: "length ?h = Suc (Suc ?k)" using k by simp
  have b: "is_board (squares ?new)"
    using is_board_set_at [OF is_board_current [OF inv] i, of ?m] by simp
  have "set (take (Suc ?k) (history s)) \<subseteq> set (history s)" by (rule set_take_subset)
  then have boards: "\<forall>e \<in> set ?h. is_board (squares e)"
    using inv b by (auto simp: game_inv_def)
  have first: "squares (?h ! 0) = empty_squares"
    using inv k by (simp add: nth_append game_inv_def)
  have "\<not> truthy (get (squares (history s ! ?k)) i)"
    using False by (simp add: currentBoard_def)
  then have mono: "monotone_history ?h"
    using monotone_history_append [of "history s" ?k i "Str ?m"] inv k
    by (simp add: game_inv_def currentBoard_def)
  have step: "stepNumber s + 1 < int (length ?h)" using len r by simp
  show ?thesis
    unfolding s' game_inv_def using r step boards first mono by simp
qed

lemma reachable_inv: "reachable s \<Longrightarrow> game_inv s"
proof (induction rule: reachable.induct)
  case start
  show ?case by (rule game_inv_initial)
next
  case (click s i s')
  then show ?case using game_inv_handleClick by blast
next
  case (jump s step)
  then show ?case using game_inv_jumpTo by blast
qed

lemma reachable_run:
  "reachable s \<Longrightarrow> from_page es s \<Longrightarrow> run es s = Inr s' \<Longrightarrow> reachable s'"
proof (induction es s rule: run.induct)
  case (1 s)
  then show ?case by simp
next
  case (2 i es s)
  then show ?case by (auto split: sum.splits intro: reachable.click)
next
  case (3 k es s)
  then show ?case by (auto intro: reachable.jump)
qed

lemma replicate_9: "replicate 9 x = [x, x, x, x, x, x, x, x, x]"
  by (simp add: numeral_eq_Suc)

lemmas eval_simps = replicate_9 handleClick_def jumpTo_def initial_state_def empty_squares_def
  slice_to_def slice_copy_def calculateWinner_def lines_def get_def set_at_def is_index_def
  cells_def Let_def signed_modulo_int_def render_def turn_suffix_def

lemma winner_from_Null_or_truthy: "winner_from ls sq = Null \<or> truthy (winner_from ls sq)"
  by (induction ls sq rule: winner_from.induct) auto

lemma calculateWinner_truthy: "truthy (calculateWinner sq) = (calculateWinner sq \<noteq> Null)"
  using winner_from_Null_or_truthy [of lines sq] by (auto simp: calculateWinner_def)

lemma winner_from_mark:
  assumes "is_board sq" "\<forall>l \<in> set ls. on_board l"
  shows "winner_from ls sq = Null \<or> winner_from ls sq = Str ''X'' \<or> winner_from ls sq = Str ''O''"
  using assms(2)
proof (induction ls)
  case Nil
  show ?case by simp
next
  case (Cons l ls)
  obtain a b c where l: "l = (a, b, c)" by (cases l)
  have "0 \<le> a" "a \<le> 8" using Cons.prems l by (auto simp: on_board_def)
  then have "get sq a = Null \<or> get sq a = Str ''X'' \<or> get sq a = Str ''O''"
    using assms(1) by (simp add: is_board_cell)
  moreover have "winner_from ls sq = Null \<or> winner_from ls sq = Str ''X'' \<or> winner_from ls sq = Str ''O''"
    using Cons by simp
  ultimately show ?case unfolding l by (cases "truthy (get sq a) \<and> get sq a = get sq b \<and> get sq a = get sq c") auto
qed

lemma calculateWinner_mark:
  "is_board sq \<Longrightarrow>
   calculateWinner sq = Null \<or> calculateWinner sq = Str ''X'' \<or> calculateWinner sq = Str ''O''"
  unfolding calculateWinner_def using winner_from_mark [OF _ lines_on_board] by simp

section \<open>Example games\<close>

lemma run_one_move: "run [Click 4] initial_state = Inr one_move"
  by (simp add: eval_simps one_move_def)

lemma run_two_moves: "run [Click 0, Click 1] initial_state = Inr two_moves"
  by (simp add: eval_simps two_moves_def)

lemma run_won_game:
  "run [Click 0, Click 3, Click 1, Click 4, Click 2] initial_state = Inr won_game"
  by (simp add: eval_simps won_game_def)

lemma reachable_one_move: "reachable one_move"
proof -
  have "from_page [Click 4] initial_state" by (simp add: eval_simps)
  with reachable.start show ?thesis using run_one_move by (rule reachable_run)
qed

lemma reachable_two_moves: "reachable two_moves"
proof -
  have "from_page [Click 0, Click 1] initial_state" by (simp add: eval_simps)
  with reachable.start show ?thesis using run_two_moves by (rule reachable_run)
qed

lemma reachable_won_game: "reachable won_game"
proof -
  have "from_page [Click 0, Click 3, Click 1, Click 4, Click 2] initial_state"
    by (simp add: eval_simps)
  with reachable.start show ?thesis using run_won_game by (rule reachable_run)
qed

section \<open>Properties of the component\<close>

lemma set_at_on_board:
  assumes "is_board a" "0 \<le> i" "i \<le> 8"
  shows "set_at a i v = a\<lparr>elems := (elems a)[nat i := v]\<rparr>"
proof -
  have "length (elems a) = 9" using assms(1) by (simp add: is_board_def)
  then have "is_index i" "nat i < length (elems a)"
    using assms(2,3) by (simp_all add: is_index_def)
  then show ?thesis by (simp add: set_at_def)
qed

lemma accepted_click:
  assumes "game_inv s"
    and "\<not> truthy (calculateWinner (currentBoard s))" "\<not> truthy (get (currentBoard s) i)"
  shows "handleClick i s =
     Inr (s\<lparr>history := take (Suc (nat (stepNumber s))) (history s) @
                 [\<lparr>squares = set_at (currentBoard s) i
                     (Str (if even (stepNumber s) then ''X'' else ''O''))\<rparr>],
            stepNumber := stepNumber s + 1,
            xIsNext := odd (stepNumber s)\<rparr>)"
  using assms(2,3) handleClick_unfold [OF assms(1), of i] by simp

lemma rejected_click:
  assumes "game_inv s"
    and "truthy (calculateWinner (currentBoard s)) \<or> truthy (get (currentBoard s) i)"
  shows "handleClick i s = Inr s"
  using assms(2) handleClick_unfold [OF assms(1), of i] by simp

lemma game_inv_step:
  assumes "game_inv s"
  shows "0 \<le> stepNumber s" "nat (stepNumber s) < length (history s)"
  using assms by (simp_all add: game_inv_def nat_less_iff)

lemma render_inv:
  assumes "game_inv s"
  shows "render s =
     Inr \<lparr>board = currentBoard s,
          status = (if calculateWinner (currentBoard s) \<noteq> Null
                    then to_string (calculateWinner (currentBoard s)) @ '' wins!!!''
                    else (if even (stepNumber s) then ''X'' else ''O'') @ turn_suffix)\<rparr>"
proof -
  have "xIsNext s = even (stepNumber s)" using assms by (simp add: game_inv_def)
  then show ?thesis
    using game_inv_step [OF assms]
    by (simp add: render_def currentBoard_def Let_def calculateWinner_truthy)
qed

lemma handleClick_history_0:
  assumes "game_inv s" "handleClick i s = Inr s'"
  shows "history s' ! 0 = history s ! 0"
proof (cases "truthy (calculateWinner (currentBoard s)) \<or> truthy (get (currentBoard s) i)")
  case True
  then have "s' = s" using assms rejected_click [of s i] by simp
  then show ?thesis by simp
next
  case False
  then have "history s' = take (Suc (nat (stepNumber s))) (history s) @
      [\<lparr>squares = set_at (currentBoard s) i (Str (if even (stepNumber s) then ''X'' else ''O''))\<rparr>]"
    using assms accepted_click [of s i] by auto
  then show ?thesis using game_inv_step [OF assms(1)] by (simp add: nth_append)
qed

section \<open>The winner of a board\<close>

text \<open>
  C2. On every board of nine cells, \<open>calculateWinner\<close> goes through the eight lines
  in the order [0,1,2], [3,4,5], [6,7,8], [0,3,6], [1,4,7], [2,5,8], [0,4,8], [2,4,6]
  and returns the mark of the first line whose first cell is not empty and equals the
  other two cells; it returns empty when there is no such line. So when several lines
  are complete, the first of them in this order decides.
\<close>

theorem calculateWinner_first_match:
  assumes "is_board sq"
  shows "calculateWinner sq = spec_detect sq"
  unfolding calculateWinner_def spec_detect_def
  using winner_from_find [OF assms lines_on_board] by (simp only: lines_spec)

text \<open>
  A board on which columns 0 and 1 are both complete, with different marks: the line
  [0,3,6] comes before [1,4,7], and its mark is returned.
\<close>

theorem calculateWinner_first_match_witness:
  "is_board \<lparr>elems = [Str ''O'', Str ''X'', Null, Str ''O'', Str ''X'', Null, Str ''O'', Str ''X'', Null],
             props = Map.empty\<rparr> \<and>
   calculateWinner \<lparr>elems = [Str ''O'', Str ''X'', Null, Str ''O'', Str ''X'', Null, Str ''O'', Str ''X'', Null],
             props = Map.empty\<rparr> = Str ''O''"
proof -
  let ?b = "\<lparr>elems = [Str ''O'', Str ''X'', Null, Str ''O'', Str ''X'', Null, Str ''O'', Str ''X'', Null],
             props = Map.empty\<rparr>"
  have b: "is_board ?b" by (simp add: is_board_def)
  have "spec_detect ?b = Str ''O''"
    by (simp add: spec_detect_def spec_lines_def spec_line_matches_def get_def is_index_def)
  then show ?thesis using b calculateWinner_first_match [OF b] by simp
qed

section \<open>Clicks on the board\<close>

text \<open>
  C1. In every reachable state and for every square \<open>i\<close> from 0 to 8: when the board
  at the active step has no winner and square \<open>i\<close> is empty, \<open>handleClick(i)\<close>
  keeps the first \<open>stepNumber + 1\<close> entries of the history, appends a copy of the
  current board in which square \<open>i\<close> holds \<open>'X'\<close> if the step is even and \<open>'O'\<close>
  otherwise, and makes the step the index of this new last entry. In particular, after
  \<open>jumpTo(step)\<close> with \<open>0 \<le> step < history.length - 1\<close>, an accepted click leaves a
  history of \<open>step + 2\<close> entries.
\<close>

theorem handleClick_accepts:
  assumes "reachable s" "0 \<le> i" "i \<le> 8"
  shows "(calculateWinner (currentBoard s) = Null \<and> get (currentBoard s) i = Null \<longrightarrow>
            (\<exists>s'. handleClick i s = Inr s' \<and>
               history s' = take (nat (stepNumber s) + 1) (history s) @
                 [\<lparr>squares = (currentBoard s)\<lparr>elems := (elems (currentBoard s))
                     [nat i := Str (if even (stepNumber s) then ''X'' else ''O'')]\<rparr>\<rparr>] \<and>
               stepNumber s' = int (length (history s')) - 1)) \<and>
         (\<forall>step. 0 \<le> step \<and> step < int (length (history s)) - 1 \<and>
            calculateWinner (currentBoard (jumpTo step s)) = Null \<and>
            get (currentBoard (jumpTo step s)) i = Null \<longrightarrow>
            (\<exists>s'. handleClick i (jumpTo step s) = Inr s' \<and>
               int (length (history s')) = step + 2))"
proof (intro conjI allI impI)
  assume a: "calculateWinner (currentBoard s) = Null \<and> get (currentBoard s) i = Null"
  have inv: "game_inv s" using assms(1) by (rule reachable_inv)
  let ?m = "Str (if even (stepNumber s) then ''X'' else ''O'')"
  let ?s' = "s\<lparr>history := take (Suc (nat (stepNumber s))) (history s) @
                 [\<lparr>squares = set_at (currentBoard s) i ?m\<rparr>],
              stepNumber := stepNumber s + 1,
              xIsNext := odd (stepNumber s)\<rparr>"
  have h: "handleClick i s = Inr ?s'"
    using inv a by (intro accepted_click) simp_all
  have sq: "set_at (currentBoard s) i ?m =
      (currentBoard s)\<lparr>elems := (elems (currentBoard s))[nat i := ?m]\<rparr>"
    using is_board_current [OF inv] assms(2,3) by (rule set_at_on_board)
  have "int (length (history ?s')) - 1 = stepNumber ?s'"
    using game_inv_step [OF inv] by simp
  then show "\<exists>s'. handleClick i s = Inr s' \<and>
       history s' = take (nat (stepNumber s) + 1) (history s) @
         [\<lparr>squares = (currentBoard s)\<lparr>elems := (elems (currentBoard s))[nat i := ?m]\<rparr>\<rparr>] \<and>
       stepNumber s' = int (length (history s')) - 1"
    using h sq by simp
next
  fix step
  assume a: "0 \<le> step \<and> step < int (length (history s)) - 1 \<and>
      calculateWinner (currentBoard (jumpTo step s)) = Null \<and>
      get (currentBoard (jumpTo step s)) i = Null"
  have "game_inv s" using assms(1) by (rule reachable_inv)
  then have inv: "game_inv (jumpTo step s)" using a by (intro game_inv_jumpTo) simp_all
  have st: "stepNumber (jumpTo step s) = step" "history (jumpTo step s) = history s"
    by (simp_all add: jumpTo_def)
  let ?t = "jumpTo step s"
  let ?s' = "?t\<lparr>history := take (Suc (nat (stepNumber ?t))) (history ?t) @
                 [\<lparr>squares = set_at (currentBoard ?t) i
                     (Str (if even (stepNumber ?t) then ''X'' else ''O''))\<rparr>],
              stepNumber := stepNumber ?t + 1,
              xIsNext := odd (stepNumber ?t)\<rparr>"
  have h: "handleClick i ?t = Inr ?s'"
    using inv a by (intro accepted_click) simp_all
  have "nat step < length (history s)" using a by auto
  then have "length (take (Suc (nat step)) (history s)) = Suc (nat step)" by simp
  then have "int (length (history ?s')) = step + 2"
    using a st by simp
  then show "\<exists>s'. handleClick i (jumpTo step s) = Inr s' \<and> int (length (history s')) = step + 2"
    using h by blast
qed

theorem handleClick_accepts_witness:
  "reachable two_moves \<and>
   calculateWinner (currentBoard two_moves) = Null \<and> get (currentBoard two_moves) 4 = Null \<and>
   (\<exists>s'. handleClick 4 two_moves = Inr s' \<and>
      history s' = history two_moves @
        [cells [Str ''X'', Str ''O'', Null, Null, Str ''X'', Null, Null, Null, Null]] \<and>
      stepNumber s' = 3) \<and>
   calculateWinner (currentBoard (jumpTo 0 two_moves)) = Null \<and>
   get (currentBoard (jumpTo 0 two_moves)) 4 = Null \<and>
   length (history (jumpTo 0 two_moves)) = 3 \<and>
   (\<exists>s'. handleClick 4 (jumpTo 0 two_moves) = Inr s' \<and> int (length (history s')) = 2)"
proof -
  note ev = eval_simps currentBoard_def two_moves_def
  have e1: "calculateWinner (currentBoard two_moves) = Null \<and> get (currentBoard two_moves) 4 = Null"
    by (simp add: ev)
  have e2: "0 \<le> (0::int) \<and> (0::int) < int (length (history two_moves)) - 1 \<and>
      calculateWinner (currentBoard (jumpTo 0 two_moves)) = Null \<and>
      get (currentBoard (jumpTo 0 two_moves)) 4 = Null"
    by (simp add: ev)
  have e3: "length (history (jumpTo 0 two_moves)) = 3" by (simp add: ev)
  have i: "(0::int) \<le> 4" "(4::int) \<le> 8" by simp_all
  note t = handleClick_accepts [OF reachable_two_moves i]
  from t [THEN conjunct1, rule_format, OF e1] obtain s' where s': "handleClick 4 two_moves = Inr s'"
      "history s' = take (nat (stepNumber two_moves) + 1) (history two_moves) @
         [\<lparr>squares = (currentBoard two_moves)\<lparr>elems := (elems (currentBoard two_moves))
             [nat 4 := Str (if even (stepNumber two_moves) then ''X'' else ''O'')]\<rparr>\<rparr>]"
      "stepNumber s' = int (length (history s')) - 1"
    by blast
  have "history s' = history two_moves @
        [cells [Str ''X'', Str ''O'', Null, Null, Str ''X'', Null, Null, Null, Null]]"
    unfolding s'(2) by (simp add: ev)
  moreover from this have "stepNumber s' = 3" using s'(3) by (simp add: two_moves_def)
  moreover have "\<exists>s'. handleClick 4 (jumpTo 0 two_moves) = Inr s' \<and>
      int (length (history s')) = 2"
    using t [THEN conjunct2, rule_format, OF e2] by simp
  ultimately show ?thesis using reachable_two_moves e1 e2 e3 s'(1) by blast
qed

text \<open>
  C3. In every reachable state and for every square \<open>i\<close> from 0 to 8: when the board
  at the active step has a winner, or square \<open>i\<close> of that board is not empty,
  \<open>handleClick(i)\<close> returns early and the state (history and step) is as before.
\<close>

theorem handleClick_rejects:
  assumes "reachable s" "0 \<le> i" "i \<le> 8"
    and "calculateWinner (currentBoard s) \<noteq> Null \<or> get (currentBoard s) i \<noteq> Null"
  shows "handleClick i s = Inr s"
proof -
  have inv: "game_inv s" using assms(1) by (rule reachable_inv)
  have "truthy (get (currentBoard s) i) = (get (currentBoard s) i \<noteq> Null)"
    using is_board_current [OF inv] assms(2,3) by (rule is_board_truthy)
  then have "truthy (calculateWinner (currentBoard s)) \<or> truthy (get (currentBoard s) i)"
    using assms(4) by (simp add: calculateWinner_truthy)
  with inv show ?thesis by (rule rejected_click)
qed

theorem handleClick_rejects_witness:
  "reachable won_game \<and> calculateWinner (currentBoard won_game) = Str ''X'' \<and>
   get (currentBoard won_game) 8 = Null \<and> handleClick 8 won_game = Inr won_game \<and>
   reachable one_move \<and> calculateWinner (currentBoard one_move) = Null \<and>
   get (currentBoard one_move) 4 = Str ''X'' \<and> handleClick 4 one_move = Inr one_move"
proof -
  have w: "calculateWinner (currentBoard won_game) = Str ''X''"
    and e: "get (currentBoard won_game) 8 = Null"
    by (simp_all add: eval_simps currentBoard_def won_game_def)
  have n: "calculateWinner (currentBoard one_move) = Null"
    and c: "get (currentBoard one_move) 4 = Str ''X''"
    by (simp_all add: eval_simps currentBoard_def one_move_def)
  have "handleClick 8 won_game = Inr won_game"
    using w by (intro handleClick_rejects reachable_won_game) simp_all
  moreover have "handleClick 4 one_move = Inr one_move"
    using c by (intro handleClick_rejects reachable_one_move) simp_all
  ultimately show ?thesis using w e n c reachable_won_game reachable_one_move by simp
qed

section \<open>Jumps in the history\<close>

text \<open>
  C4 states that \<open>jumpTo\<close> rejects a step outside the history and leaves the step as
  it is. The function has no such check: in the first state, whose history has one entry
  and whose step is 0, \<open>jumpTo(1)\<close> and \<open>jumpTo(-1)\<close> store the step they are given.
\<close>

theorem jumpTo_out_of_range_counterexample:
  "length (history initial_state) = 1 \<and> stepNumber initial_state = 0 \<and>
   jumpTo 1 initial_state = initial_state\<lparr>stepNumber := 1, xIsNext := False\<rparr> \<and>
   jumpTo (- 1) initial_state = initial_state\<lparr>stepNumber := - 1, xIsNext := False\<rparr>"
  by (simp add: jumpTo_def initial_state_def signed_modulo_int_def)

text \<open>
  C4, as the code has it. In every reachable state, \<open>jumpTo(step)\<close> with \<open>step\<close>
  outside \<open>[0, history.length - 1]\<close> reports no error and does not clamp: it stores
  \<open>step\<close> as the step, which differs from the step before, sets the turn flag to the
  parity of \<open>step\<close> and leaves the history as it is. The step then indexes no entry,
  and the next \<open>render\<close> throws a \<open>TypeError\<close>.
\<close>

theorem jumpTo_unchecked:
  assumes "reachable s" "step < 0 \<or> int (length (history s)) \<le> step"
  shows "jumpTo step s = s\<lparr>stepNumber := step, xIsNext := even step\<rparr> \<and>
         stepNumber (jumpTo step s) \<noteq> stepNumber s \<and>
         history (jumpTo step s) = history s \<and>
         render (jumpTo step s) = Inl TypeError"
proof -
  have "game_inv s" using assms(1) by (rule reachable_inv)
  then have "0 \<le> stepNumber s" "stepNumber s < int (length (history s))"
    by (simp_all add: game_inv_def)
  then have "step \<noteq> stepNumber s" using assms(2) by auto
  moreover have "render (jumpTo step s) = Inl TypeError"
    using assms(2) by (auto simp: render_def jumpTo_def)
  ultimately show ?thesis by (simp add: jumpTo_def smod_2_even)
qed

theorem jumpTo_unchecked_witness:
  "reachable one_move \<and> int (length (history one_move)) \<le> 2 \<and>
   jumpTo 2 one_move = one_move\<lparr>stepNumber := 2, xIsNext := True\<rparr> \<and>
   stepNumber (jumpTo 2 one_move) \<noteq> stepNumber one_move \<and>
   history (jumpTo 2 one_move) = history one_move \<and>
   render (jumpTo 2 one_move) = Inl TypeError"
proof -
  have r: "(2::int) < 0 \<or> int (length (history one_move)) \<le> 2"
    by (simp add: one_move_def)
  note t = jumpTo_unchecked [OF reachable_one_move r]
  have "jumpTo 2 one_move = one_move\<lparr>stepNumber := 2, xIsNext := True\<rparr>"
    using t [THEN conjunct1] by simp
  moreover have "int (length (history one_move)) \<le> 2" by (simp add: one_move_def)
  ultimately show ?thesis using t reachable_one_move by blast
qed

text \<open>
  C5. In every reachable state and for every \<open>step\<close> with
  \<open>0 \<le> step \<le> history.length - 1\<close>, \<open>jumpTo(step)\<close> makes \<open>step\<close> the step and
  leaves the history as it is; the turn after the jump is X's when \<open>step\<close> is even and
  O's when it is odd, as the flag and (on a board without winner) the status line show.
  So \<open>jumpTo(0)\<close> shows the empty board and the status \<open>X's turn!\<close>, with the
  history kept whole.
\<close>

theorem jumpTo_in_range:
  assumes "reachable s" "0 \<le> step" "step < int (length (history s))"
  shows "stepNumber (jumpTo step s) = step \<and>
         history (jumpTo step s) = history s \<and>
         xIsNext (jumpTo step s) = even step \<and>
         (calculateWinner (squares (history s ! nat step)) = Null \<longrightarrow>
            render (jumpTo step s) =
              Inr \<lparr>board = squares (history s ! nat step),
                   status = (if even step then ''X's turn!'' else ''O's turn!'')\<rparr>) \<and>
         render (jumpTo 0 s) =
           Inr \<lparr>board = \<lparr>elems = replicate 9 Null, props = Map.empty\<rparr>,
                status = ''X's turn!''\<rparr> \<and>
         history (jumpTo 0 s) = history s"
proof -
  have inv: "game_inv s" using assms(1) by (rule reachable_inv)
  have f: "stepNumber (jumpTo step s) = step" "history (jumpTo step s) = history s"
    "xIsNext (jumpTo step s) = even step"
    by (simp_all add: jumpTo_def smod_2_even)
  have cb: "currentBoard (jumpTo step s) = squares (history s ! nat step)"
    by (simp add: currentBoard_def jumpTo_def)
  have r: "render (jumpTo step s) =
     Inr \<lparr>board = squares (history s ! nat step),
          status = (if calculateWinner (squares (history s ! nat step)) \<noteq> Null
                    then to_string (calculateWinner (squares (history s ! nat step))) @ '' wins!!!''
                    else (if even step then ''X'' else ''O'') @ turn_suffix)\<rparr>"
    using render_inv [OF game_inv_jumpTo [OF inv assms(2,3)]] unfolding cb f by simp
  have step: "calculateWinner (squares (history s ! nat step)) = Null \<longrightarrow>
      render (jumpTo step s) =
        Inr \<lparr>board = squares (history s ! nat step),
             status = (if even step then ''X's turn!'' else ''O's turn!'')\<rparr>"
    unfolding r by (simp add: turn_suffix_def)
  have h0: "(0::int) < int (length (history s))" using game_inv_step [OF inv] by auto
  have cb0: "currentBoard (jumpTo 0 s) = empty_squares"
    using inv by (simp add: currentBoard_def jumpTo_def game_inv_def)
  have w0: "calculateWinner empty_squares = Null"
    by (simp add: eval_simps)
  have "render (jumpTo 0 s) =
      Inr \<lparr>board = \<lparr>elems = replicate 9 Null, props = Map.empty\<rparr>, status = ''X's turn!''\<rparr>"
    using render_inv [OF game_inv_jumpTo [OF inv order_refl h0]] unfolding cb0 w0
    by (simp add: jumpTo_def turn_suffix_def empty_squares_def)
  moreover have "history (jumpTo 0 s) = history s" by (simp add: jumpTo_def)
  ultimately show ?thesis using f step by blast
qed

theorem jumpTo_in_range_witness:
  "reachable won_game \<and> (0::int) \<le> 2 \<and> 2 < int (length (history won_game)) \<and>
   stepNumber (jumpTo 2 won_game) = 2 \<and> history (jumpTo 2 won_game) = history won_game \<and>
   xIsNext (jumpTo 2 won_game) \<and>
   render (jumpTo 2 won_game) =
     Inr \<lparr>board = squares (cells [Str ''X'', Null, Null, Str ''O'', Null, Null, Null, Null, Null]),
          status = ''X's turn!''\<rparr> \<and>
   render (jumpTo 0 won_game) =
     Inr \<lparr>board = squares (cells [Null, Null, Null, Null, Null, Null, Null, Null, Null]),
          status = ''X's turn!''\<rparr> \<and>
   length (history (jumpTo 0 won_game)) = 6"
proof -
  have r: "(0::int) \<le> 2" "2 < int (length (history won_game))"
    by (simp_all add: won_game_def)
  note t = jumpTo_in_range [OF reachable_won_game r]
  have n: "calculateWinner (squares (history won_game ! nat 2)) = Null"
    by (simp add: eval_simps won_game_def)
  have b: "squares (history won_game ! nat 2) =
      squares (cells [Str ''X'', Null, Null, Str ''O'', Null, Null, Null, Null, Null])"
    by (simp add: won_game_def)
  have "render (jumpTo 2 won_game) =
     Inr \<lparr>board = squares (cells [Str ''X'', Null, Null, Str ''O'', Null, Null, Null, Null, Null]),
          status = ''X's turn!''\<rparr>"
    using t n unfolding b by simp
  moreover have "render (jumpTo 0 won_game) =
     Inr \<lparr>board = squares (cells [Null, Null, Null, Null, Null, Null, Null, Null, Null]),
          status = ''X's turn!''\<rparr>"
    using t by (simp add: cells_def replicate_9)
  moreover have "length (history (jumpTo 0 won_game)) = 6"
    using t by (simp add: won_game_def)
  moreover have "xIsNext (jumpTo 2 won_game)" using t by simp
  ultimately show ?thesis using t r reachable_won_game by blast
qed

section \<open>The status line and the turn\<close>

text \<open>
  C6. In every reachable state \<open>render\<close> succeeds, shows the board at the active step,
  and its status line is \<open>m wins!!!\<close> when \<open>calculateWinner\<close> returns the mark \<open>m\<close>
  for that board, and otherwise names the next player: X when the step is even, O when it
  is odd. \<open>calculateWinner\<close> returns nothing but \<open>null\<close>, \<open>'X'\<close> or \<open>'O'\<close> there.
\<close>

theorem render_status:
  assumes "reachable s"
  shows "render s =
           Inr \<lparr>board = currentBoard s,
                status =
                  (if calculateWinner (currentBoard s) = Str ''X'' then ''X wins!!!''
                   else if calculateWinner (currentBoard s) = Str ''O'' then ''O wins!!!''
                   else if even (stepNumber s) then ''X's turn!''
                   else ''O's turn!'')\<rparr> \<and>
         (calculateWinner (currentBoard s) = Null \<or>
          calculateWinner (currentBoard s) = Str ''X'' \<or>
          calculateWinner (currentBoard s) = Str ''O'')"
proof -
  have inv: "game_inv s" using assms by (rule reachable_inv)
  have m: "calculateWinner (currentBoard s) = Null \<or>
      calculateWinner (currentBoard s) = Str ''X'' \<or>
      calculateWinner (currentBoard s) = Str ''O''"
    using is_board_current [OF inv] by (rule calculateWinner_mark)
  then have "render s =
       Inr \<lparr>board = currentBoard s,
            status =
              (if calculateWinner (currentBoard s) = Str ''X'' then ''X wins!!!''
               else if calculateWinner (currentBoard s) = Str ''O'' then ''O wins!!!''
               else if even (stepNumber s) then ''X's turn!''
               else ''O's turn!'')\<rparr>"
    unfolding render_inv [OF inv] by (auto simp: turn_suffix_def)
  then show ?thesis using m by simp
qed

theorem render_status_witness:
  "reachable one_move \<and>
   handleClick 4 initial_state = Inr one_move \<and>
   render one_move =
     Inr \<lparr>board = squares (cells [Null, Null, Null, Null, Str ''X'', Null, Null, Null, Null]),
          status = ''O's turn!''\<rparr> \<and>
   reachable won_game \<and>
   render won_game =
     Inr \<lparr>board = squares (cells [Str ''X'', Str ''X'', Str ''X'', Str ''O'', Str ''O'',
                                   Null, Null, Null, Null]),
          status = ''X wins!!!''\<rparr>"
proof -
  have c: "handleClick 4 initial_state = Inr one_move"
    using run_one_move by (simp split: sum.splits)
  have n: "calculateWinner (currentBoard one_move) = Null" "stepNumber one_move = 1"
    "currentBoard one_move =
       squares (cells [Null, Null, Null, Null, Str ''X'', Null, Null, Null, Null])"
    by (simp_all add: eval_simps currentBoard_def one_move_def)
  have w: "calculateWinner (currentBoard won_game) = Str ''X''"
    "currentBoard won_game =
       squares (cells [Str ''X'', Str ''X'', Str ''X'', Str ''O'', Str ''O'', Null, Null, Null, Null])"
    by (simp_all add: eval_simps currentBoard_def won_game_def)
  have "render one_move = Inr \<lparr>board = currentBoard one_move, status = ''O's turn!''\<rparr>"
    using render_status [OF reachable_one_move, THEN conjunct1] by (simp add: n(1,2))
  then have "render one_move =
     Inr \<lparr>board = squares (cells [Null, Null, Null, Null, Str ''X'', Null, Null, Null, Null]),
          status = ''O's turn!''\<rparr>"
    by (simp only: n(3))
  moreover have "render won_game = Inr \<lparr>board = currentBoard won_game, status = ''X wins!!!''\<rparr>"
    using render_status [OF reachable_won_game, THEN conjunct1] by (simp add: w(1))
  then have "render won_game =
     Inr \<lparr>board = squares (cells [Str ''X'', Str ''X'', Str ''X'', Str ''O'', Str ''O'',
                                   Null, Null, Null, Null]),
          status = ''X wins!!!''\<rparr>"
    by (simp only: w(2))
  ultimately show ?thesis using c reachable_one_move reachable_won_game by simp
qed

text \<open>
  C7. In every state reached from the first one by clicks on the squares and by jumps
  inside the history, the stored flag \<open>xIsNext\<close> is the parity of the step: the mark
  that an accepted click writes is \<open>'X'\<close> when the step is even and \<open>'O'\<close> when it is
  odd.
\<close>

theorem turn_follows_parity:
  assumes "reachable s"
  shows "xIsNext s = even (stepNumber s) \<and>
         (\<forall>i s'. 0 \<le> i \<and> i \<le> 8 \<and> handleClick i s = Inr s' \<and> s' \<noteq> s \<longrightarrow>
            get (squares (last (history s'))) i =
              Str (if even (stepNumber s) then ''X'' else ''O''))"
proof (intro conjI allI impI)
  have inv: "game_inv s" using assms by (rule reachable_inv)
  then show "xIsNext s = even (stepNumber s)" by (simp add: game_inv_def)
  fix i s'
  assume a: "0 \<le> i \<and> i \<le> 8 \<and> handleClick i s = Inr s' \<and> s' \<noteq> s"
  then have "\<not> (truthy (calculateWinner (currentBoard s)) \<or> truthy (get (currentBoard s) i))"
    using rejected_click [OF inv, of i] by auto
  then have "handleClick i s =
     Inr (s\<lparr>history := take (Suc (nat (stepNumber s))) (history s) @
                 [\<lparr>squares = set_at (currentBoard s) i
                     (Str (if even (stepNumber s) then ''X'' else ''O''))\<rparr>],
            stepNumber := stepNumber s + 1,
            xIsNext := odd (stepNumber s)\<rparr>)"
    using accepted_click [OF inv, of i] by simp
  then have "last (history s') = \<lparr>squares = set_at (currentBoard s) i
      (Str (if even (stepNumber s) then ''X'' else ''O''))\<rparr>"
    using a by auto
  then show "get (squares (last (history s'))) i =
      Str (if even (stepNumber s) then ''X'' else ''O'')"
    by (simp add: get_set_at_same)
qed

theorem turn_follows_parity_witness:
  "reachable one_move \<and> stepNumber one_move = 1 \<and> \<not> xIsNext one_move \<and>
   handleClick 0 one_move =
     Inr \<lparr>history =
            [cells [Null, Null, Null, Null, Null, Null, Null, Null, Null],
             cells [Null, Null, Null, Null, Str ''X'', Null, Null, Null, Null],
             cells [Str ''O'', Null, Null, Null, Str ''X'', Null, Null, Null, Null]],
          stepNumber = 2,
          xIsNext = True\<rparr> \<and>
   get (squares (cells [Str ''O'', Null, Null, Null, Str ''X'', Null, Null, Null, Null])) 0 =
     Str ''O''"
proof -
  let ?s' = "\<lparr>history =
            [cells [Null, Null, Null, Null, Null, Null, Null, Null, Null],
             cells [Null, Null, Null, Null, Str ''X'', Null, Null, Null, Null],
             cells [Str ''O'', Null, Null, Null, Str ''X'', Null, Null, Null, Null]],
          stepNumber = 2,
          xIsNext = True\<rparr>"
  have h: "handleClick 0 one_move = Inr ?s'"
    by (simp add: eval_simps one_move_def)
  have ne: "?s' \<noteq> one_move" by (simp add: one_move_def)
  have st: "stepNumber one_move = 1" by (simp add: one_move_def)
  note t = turn_follows_parity [OF reachable_one_move]
  have "get (squares (last (history ?s'))) 0 =
      Str (if even (stepNumber one_move) then ''X'' else ''O'')"
    using t [THEN conjunct2, rule_format, of 0 ?s'] h ne by simp
  then have "get (squares (cells [Str ''O'', Null, Null, Null, Str ''X'', Null, Null, Null, Null])) 0 =
      Str ''O''"
    unfolding st by simp
  moreover have "\<not> xIsNext one_move" using t [THEN conjunct1] st by simp
  ultimately show ?thesis using reachable_one_move st h by simp
qed

section \<open>Invariants of the history\<close>

text \<open>
  C8. In every reachable state the history is not empty and its entry 0 is the board
  of nine empty cells: \<open>handleClick\<close> never changes entry 0 (it keeps a prefix of at
  least one entry and appends behind it), and \<open>jumpTo\<close> never changes the history.
\<close>

theorem first_entry_empty:
  assumes "reachable s"
  shows "history s \<noteq> [] \<and>
         squares (history s ! 0) =
           \<lparr>elems = [Null, Null, Null, Null, Null, Null, Null, Null, Null],
            props = Map.empty\<rparr> \<and>
         (\<forall>i s'. handleClick i s = Inr s' \<longrightarrow> history s' ! 0 = history s ! 0) \<and>
         (\<forall>step. history (jumpTo step s) = history s)"
proof -
  have inv: "game_inv s" using assms by (rule reachable_inv)
  have "history s \<noteq> []" using game_inv_step [OF inv] by auto
  moreover have "squares (history s ! 0) =
      \<lparr>elems = [Null, Null, Null, Null, Null, Null, Null, Null, Null], props = Map.empty\<rparr>"
    using inv by (simp add: game_inv_def empty_squares_def replicate_9)
  moreover have "\<forall>i s'. handleClick i s = Inr s' \<longrightarrow> history s' ! 0 = history s ! 0"
    using handleClick_history_0 [OF inv] by blast
  moreover have "\<forall>step. history (jumpTo step s) = history s"
    by (simp add: jumpTo_def)
  ultimately show ?thesis by blast
qed

theorem first_entry_empty_witness:
  "reachable won_game \<and> length (history won_game) = 6 \<and>
   history (jumpTo 2 won_game) = history won_game \<and>
   history won_game ! 0 = cells [Null, Null, Null, Null, Null, Null, Null, Null, Null] \<and>
   handleClick 5 (jumpTo 2 won_game) =
     Inr \<lparr>history =
            [cells [Null, Null, Null, Null, Null, Null, Null, Null, Null],
             cells [Str ''X'', Null, Null, Null, Null, Null, Null, Null, Null],
             cells [Str ''X'', Null, Null, Str ''O'', Null, Null, Null, Null, Null],
             cells [Str ''X'', Null, Null, Str ''O'', Null, Str ''X'', Null, Null, Null]],
          stepNumber = 3,
          xIsNext = False\<rparr> \<and>
   squares (history (jumpTo 2 won_game) ! 0) =
     \<lparr>elems = [Null, Null, Null, Null, Null, Null, Null, Null, Null], props = Map.empty\<rparr>"
proof -
  have r: "reachable (jumpTo 2 won_game)"
    by (rule reachable.jump [OF reachable_won_game]) (simp_all add: won_game_def)
  note t = first_entry_empty [OF r]
  have "squares (history (jumpTo 2 won_game) ! 0) =
     \<lparr>elems = [Null, Null, Null, Null, Null, Null, Null, Null, Null], props = Map.empty\<rparr>"
    using t by blast
  moreover have "handleClick 5 (jumpTo 2 won_game) =
     Inr \<lparr>history =
            [cells [Null, Null, Null, Null, Null, Null, Null, Null, Null],
             cells [Str ''X'', Null, Null, Null, Null, Null, Null, Null, Null],
             cells [Str ''X'', Null, Null, Str ''O'', Null, Null, Null, Null, Null],
             cells [Str ''X'', Null, Null, Str ''O'', Null, Str ''X'', Null, Null, Null]],
          stepNumber = 3,
          xIsNext = False\<rparr>"
    by (simp add: eval_simps won_game_def)
  moreover from this have "history \<lparr>history =
            [cells [Null, Null, Null, Null, Null, Null, Null, Null, Null],
             cells [Str ''X'', Null, Null, Null, Null, Null, Null, Null, Null],
             cells [Str ''X'', Null, Null, Str ''O'', Null, Null, Null, Null, Null],
             cells [Str ''X'', Null, Null, Str ''O'', Null, Str ''X'', Null, Null, Null]],
          stepNumber = 3,
          xIsNext = False\<rparr> ! 0 = history (jumpTo 2 won_game) ! 0"
    using t [THEN conjunct2, THEN conjunct2, THEN conjunct1] by blast
  moreover have "length (history won_game) = 6"
    by (simp add: won_game_def)
  moreover have "history (jumpTo 2 won_game) = history won_game"
    using first_entry_empty [OF reachable_won_game] by blast
  ultimately show ?thesis using reachable_won_game by simp
qed

text \<open>
  C9. In every reachable state, a cell that is not empty in an entry of the history
  holds the same mark in every later entry. An accepted click removes only the entries
  behind the active step, and the entry it appends differs from the current board in
  exactly one cell, which was empty and now holds a mark.
\<close>

theorem history_monotone:
  assumes "reachable s"
  shows "(\<forall>n m p. n \<le> m \<and> m < length (history s) \<and> 0 \<le> p \<and> p \<le> 8 \<and>
            get (squares (history s ! n)) p \<noteq> Null \<longrightarrow>
            get (squares (history s ! m)) p = get (squares (history s ! n)) p) \<and>
         (\<forall>i s'. 0 \<le> i \<and> i \<le> 8 \<and> handleClick i s = Inr s' \<and> s' \<noteq> s \<longrightarrow>
            history s' = take (nat (stepNumber s) + 1) (history s) @ [last (history s')] \<and>
            get (currentBoard s) i = Null \<and>
            (get (squares (last (history s'))) i = Str ''X'' \<or>
             get (squares (last (history s'))) i = Str ''O'') \<and>
            (\<forall>p. p \<noteq> i \<longrightarrow> get (squares (last (history s'))) p = get (currentBoard s) p))"
proof (intro conjI allI impI)
  have inv: "game_inv s" using assms by (rule reachable_inv)
  {
    fix n m p
    assume a: "n \<le> m \<and> m < length (history s) \<and> 0 \<le> p \<and> p \<le> 8 \<and>
        get (squares (history s ! n)) p \<noteq> Null"
    then have "history s ! n \<in> set (history s)" by simp
    then have "is_board (squares (history s ! n))" using inv by (simp add: game_inv_def)
    then have "truthy (get (squares (history s ! n)) p)"
      using a by (simp add: is_board_truthy)
    moreover have "monotone_history (history s)" using inv by (simp add: game_inv_def)
    ultimately show "get (squares (history s ! m)) p = get (squares (history s ! n)) p"
      using a unfolding monotone_history_def by blast
  }
  fix i s'
  assume a: "0 \<le> i \<and> i \<le> 8 \<and> handleClick i s = Inr s' \<and> s' \<noteq> s"
  let ?m = "if even (stepNumber s) then ''X'' else ''O''"
  let ?new = "\<lparr>squares = set_at (currentBoard s) i (Str ?m)\<rparr>"
  have free: "\<not> truthy (calculateWinner (currentBoard s))" "\<not> truthy (get (currentBoard s) i)"
    using a rejected_click [OF inv, of i] by auto
  then have "handleClick i s =
     Inr (s\<lparr>history := take (Suc (nat (stepNumber s))) (history s) @ [?new],
            stepNumber := stepNumber s + 1,
            xIsNext := odd (stepNumber s)\<rparr>)"
    using accepted_click [OF inv, of i] by simp
  then have h: "history s' = take (Suc (nat (stepNumber s))) (history s) @ [?new]"
    using a by auto
  then have l: "last (history s') = ?new" by simp
  show "history s' = take (nat (stepNumber s) + 1) (history s) @ [last (history s')]"
    unfolding l using h by simp
  show "get (currentBoard s) i = Null"
    using free(2) is_board_truthy [OF is_board_current [OF inv], of i] a by simp
  show "get (squares (last (history s'))) i = Str ''X'' \<or>
      get (squares (last (history s'))) i = Str ''O''"
    unfolding l by (simp add: get_set_at_same)
  fix p
  assume "p \<noteq> i"
  then show "get (squares (last (history s'))) p = get (currentBoard s) p"
    unfolding l by (simp add: get_set_at_other)
qed

theorem history_monotone_witness:
  "reachable (jumpTo 2 won_game) \<and> length (history (jumpTo 2 won_game)) = 6 \<and>
   get (squares (history (jumpTo 2 won_game) ! 1)) 0 = Str ''X'' \<and>
   get (squares (history (jumpTo 2 won_game) ! 5)) 0 = Str ''X'' \<and>
   handleClick 5 (jumpTo 2 won_game) =
     Inr \<lparr>history =
            [cells [Null, Null, Null, Null, Null, Null, Null, Null, Null],
             cells [Str ''X'', Null, Null, Null, Null, Null, Null, Null, Null],
             cells [Str ''X'', Null, Null, Str ''O'', Null, Null, Null, Null, Null],
             cells [Str ''X'', Null, Null, Str ''O'', Null, Str ''X'', Null, Null, Null]],
          stepNumber = 3,
          xIsNext = False\<rparr> \<and>
   get (currentBoard (jumpTo 2 won_game)) 5 = Null \<and>
   get (squares (cells [Str ''X'', Null, Null, Str ''O'', Null, Str ''X'', Null, Null, Null])) 3 =
     get (currentBoard (jumpTo 2 won_game)) 3 \<and>
   get (squares (cells [Str ''X'', Null, Null, Str ''O'', Null, Str ''X'', Null, Null, Null])) 4 =
     get (currentBoard (jumpTo 2 won_game)) 4"
proof -
  let ?s = "jumpTo 2 won_game"
  let ?s' = "\<lparr>history =
            [cells [Null, Null, Null, Null, Null, Null, Null, Null, Null],
             cells [Str ''X'', Null, Null, Null, Null, Null, Null, Null, Null],
             cells [Str ''X'', Null, Null, Str ''O'', Null, Null, Null, Null, Null],
             cells [Str ''X'', Null, Null, Str ''O'', Null, Str ''X'', Null, Null, Null]],
          stepNumber = 3,
          xIsNext = False\<rparr>"
  have r: "reachable ?s"
    by (rule reachable.jump [OF reachable_won_game]) (simp_all add: won_game_def)
  note t = history_monotone [OF r]
  have len: "length (history ?s) = 6" by (simp add: jumpTo_def won_game_def)
  have g1: "get (squares (history ?s ! 1)) 0 = Str ''X''"
    by (simp add: eval_simps won_game_def)
  have "(1::nat) \<le> 5 \<and> 5 < length (history ?s) \<and> (0::int) \<le> 0 \<and> (0::int) \<le> 8 \<and>
      get (squares (history ?s ! 1)) 0 \<noteq> Null"
    using len g1 by simp
  then have g5: "get (squares (history ?s ! 5)) 0 = Str ''X''"
    using t [THEN conjunct1, rule_format, of 1 5 0] g1 by simp
  have h: "handleClick 5 ?s = Inr ?s'"
    by (simp add: eval_simps won_game_def)
  have ne: "?s' \<noteq> ?s"
  proof
    assume "?s' = ?s"
    then have "stepNumber ?s' = stepNumber ?s" by (rule arg_cong)
    then show False by (simp add: jumpTo_def)
  qed
  have a: "(0::int) \<le> 5 \<and> (5::int) \<le> 8 \<and> handleClick 5 ?s = Inr ?s' \<and> ?s' \<noteq> ?s"
    using h ne by simp
  note u = t [THEN conjunct2, rule_format, OF a]
  have "get (currentBoard ?s) 5 = Null" using u by blast
  moreover have q: "\<forall>p. p \<noteq> 5 \<longrightarrow>
      get (squares (cells [Str ''X'', Null, Null, Str ''O'', Null, Str ''X'', Null, Null, Null])) p =
      get (currentBoard ?s) p"
    using u by simp
  moreover have
    "get (squares (cells [Str ''X'', Null, Null, Str ''O'', Null, Str ''X'', Null, Null, Null])) 3 =
       get (currentBoard ?s) 3"
    "get (squares (cells [Str ''X'', Null, Null, Str ''O'', Null, Str ''X'', Null, Null, Null])) 4 =
       get (currentBoard ?s) 4"
    using q by simp_all
  ultimately show ?thesis using r len g1 g5 h by blast
qed

section \<open>Clicks outside the board\<close>

text \<open>
  C10 states that a click outside the board always makes the history one entry longer.
  After two moves and a jump back to the start, the history has three entries; a click
  on square 9 is accepted there, and the history it leaves has two.
\<close>

theorem click_outside_counterexample:
  "reachable (jumpTo 0 two_moves) \<and>
   calculateWinner (currentBoard (jumpTo 0 two_moves)) = Null \<and>
   length (history (jumpTo 0 two_moves)) = 3 \<and>
   handleClick 9 (jumpTo 0 two_moves) =
     Inr \<lparr>history =
            [cells [Null, Null, Null, Null, Null, Null, Null, Null, Null],
             cells [Null, Null, Null, Null, Null, Null, Null, Null, Null, Str ''X'']],
          stepNumber = 1,
          xIsNext = False\<rparr>"
proof -
  have "reachable (jumpTo 0 two_moves)"
    by (rule reachable.jump [OF reachable_two_moves]) (simp_all add: two_moves_def)
  then show ?thesis
    by (simp add: eval_simps currentBoard_def two_moves_def)
qed

text \<open>
  C10, as the code has it. \<open>handleClick\<close> does not check its index. In every
  reachable state whose board at the active step has no winner, a click with an index
  outside 0 to 8 is not rejected: the read at that index gives \<open>undefined\<close>, so an
  entry is appended behind the entry at the active step (the history then has
  \<open>stepNumber + 2\<close> entries, which is one more than before when the step was the last
  index) and the step advances by one. The cells 0 to 8 of the new entry are those of
  the current board, and the mark of the player to move is stored at the index given.
\<close>

theorem click_outside_board:
  assumes "reachable s" "calculateWinner (currentBoard s) = Null" "i < 0 \<or> 8 < i"
  shows "get (currentBoard s) i = Undefined \<and>
         (\<exists>s'. handleClick i s = Inr s' \<and>
            history s' = take (nat (stepNumber s) + 1) (history s) @ [last (history s')] \<and>
            int (length (history s')) = stepNumber s + 2 \<and>
            stepNumber s' = stepNumber s + 1 \<and>
            (\<forall>p. 0 \<le> p \<and> p \<le> 8 \<longrightarrow>
               get (squares (last (history s'))) p = get (currentBoard s) p) \<and>
            get (squares (last (history s'))) i =
              Str (if even (stepNumber s) then ''X'' else ''O'') \<and>
            (stepNumber s = int (length (history s)) - 1 \<longrightarrow>
               length (history s') = length (history s) + 1))"
proof -
  have inv: "game_inv s" using assms(1) by (rule reachable_inv)
  let ?m = "if even (stepNumber s) then ''X'' else ''O''"
  let ?new = "\<lparr>squares = set_at (currentBoard s) i (Str ?m)\<rparr>"
  let ?s' = "s\<lparr>history := take (Suc (nat (stepNumber s))) (history s) @ [?new],
              stepNumber := stepNumber s + 1,
              xIsNext := odd (stepNumber s)\<rparr>"
  have u: "get (currentBoard s) i = Undefined"
    using is_board_current [OF inv] assms(3) by (rule is_board_outside)
  then have h: "handleClick i s = Inr ?s'"
    using inv assms(2) by (intro accepted_click) simp_all
  have k: "0 \<le> stepNumber s" "nat (stepNumber s) < length (history s)"
    using game_inv_step [OF inv] by simp_all
  then have tk: "length (take (Suc (nat (stepNumber s))) (history s)) = Suc (nat (stepNumber s))"
    by simp
  have 1: "history ?s' = take (nat (stepNumber s) + 1) (history s) @ [last (history ?s')]"
    by simp
  have 2: "int (length (history ?s')) = stepNumber s + 2"
    using tk k by simp
  have 3: "stepNumber ?s' = stepNumber s + 1" by simp
  have 4: "\<forall>p. 0 \<le> p \<and> p \<le> 8 \<longrightarrow>
      get (squares (last (history ?s'))) p = get (currentBoard s) p"
    using assms(3) by (auto simp: get_set_at_other)
  have 5: "get (squares (last (history ?s'))) i = Str ?m"
    by (simp add: get_set_at_same)
  have 6: "stepNumber s = int (length (history s)) - 1 \<longrightarrow>
      length (history ?s') = length (history s) + 1"
    using k by auto
  show ?thesis using u h 1 2 3 4 5 6 by blast
qed

theorem click_outside_board_witness:
  "reachable two_moves \<and> calculateWinner (currentBoard two_moves) = Null \<and>
   get (currentBoard two_moves) 9 = Undefined \<and>
   (\<exists>s'. handleClick 9 two_moves = Inr s' \<and> length (history s') = 4 \<and> stepNumber s' = 3 \<and>
      get (squares (last (history s'))) 0 = Str ''X'' \<and>
      get (squares (last (history s'))) 1 = Str ''O'' \<and>
      get (squares (last (history s'))) 9 = Str ''X'')"
proof -
  have n: "calculateWinner (currentBoard two_moves) = Null"
    by (simp add: eval_simps currentBoard_def two_moves_def)
  have o: "(9::int) < 0 \<or> (8::int) < 9" by simp
  have st: "stepNumber two_moves = 2" "length (history two_moves) = 3"
    "get (currentBoard two_moves) 0 = Str ''X''" "get (currentBoard two_moves) 1 = Str ''O''"
    by (simp_all add: eval_simps currentBoard_def two_moves_def)
  note t = click_outside_board [OF reachable_two_moves n o]
  from t obtain s' where s': "handleClick 9 two_moves = Inr s'"
    "int (length (history s')) = stepNumber two_moves + 2"
    "stepNumber s' = stepNumber two_moves + 1"
    "\<forall>p. 0 \<le> p \<and> p \<le> 8 \<longrightarrow>
       get (squares (last (history s'))) p = get (currentBoard two_moves) p"
    "get (squares (last (history s'))) 9 =
       Str (if even (stepNumber two_moves) then ''X'' else ''O'')"
    by blast
  have "length (history s') = 4" "stepNumber s' = 3"
    "get (squares (last (history s'))) 0 = Str ''X''"
    "get (squares (last (history s'))) 1 = Str ''O''"
    "get (squares (last (history s'))) 9 = Str ''X''"
    using s' st by simp_all
  then show ?thesis using t reachable_two_moves n s'(1) by blast
qed

text \<open>
  The states above are those the page leads to. After a click outside the board the
  mark stored there is read back, and the same click is then rejected.
\<close>

lemma click_outside_twice:
  "handleClick 9 initial_state =
     Inr \<lparr>history =
            [cells [Null, Null, Null, Null, Null, Null, Null, Null, Null],
             cells [Null, Null, Null, Null, Null, Null, Null, Null, Null, Str ''X'']],
          stepNumber = 1,
          xIsNext = False\<rparr> \<and>
   handleClick 9
     \<lparr>history =
        [cells [Null, Null, Null, Null, Null, Null, Null, Null, Null],
         cells [Null, Null, Null, Null, Null, Null, Null, Null, Null, Str ''X'']],
      stepNumber = 1,
      xIsNext = False\<rparr> =
     Inr \<lparr>history =
            [cells [Null, Null, Null, Null, Null, Null, Null, Null, Null],
             cells [Null, Null, Null, Null, Null, Null, Null, Null, Null, Str ''X'']],
          stepNumber = 1,
          xIsNext = False\<rparr>"
  by (simp add: eval_simps)

end
